theory Spec2Isabelle
  imports Main
begin

section \<open>Data model\<close>

text \<open>
  The unit under verification is \<^verbatim>\<open>autogpt/memory/message_history.py\<close>: the class
  \<^verbatim>\<open>MessageHistory\<close> with its methods \<^verbatim>\<open>messages\<close>, \<^verbatim>\<open>trim_messages\<close>,
  \<^verbatim>\<open>summary_message\<close>, \<^verbatim>\<open>update_running_summary\<close> and \<^verbatim>\<open>summarize_batch\<close>.
\<close>

text \<open>
  Modelled from the spec: \<^verbatim>\<open>Message\<close> is imported from \<^verbatim>\<open>autogpt.llm.base\<close>, which
  is not part of the sources. The spec gives it as a record of a role and a content,
  compared by value; the source builds one as \<^verbatim>\<open>Message("system", text)\<close> and reads and
  writes \<^verbatim>\<open>.role\<close> and \<^verbatim>\<open>.content\<close>.
\<close>

record Message =
  role :: string
  content :: string

text \<open>
  Modelled from the spec: \<^verbatim>\<open>MessageCycle\<close> is imported from \<^verbatim>\<open>autogpt.llm.base\<close>
  too. The spec gives it as an ordered sequence of messages; the source reads that
  sequence as \<^verbatim>\<open>cycle.messages\<close>.
\<close>

record MessageCycle =
  cycle_messages :: "Message list"

text \<open>
  The dataclass \<^verbatim>\<open>MessageHistory\<close>. The field \<^verbatim>\<open>agent\<close> is only used to reach the
  log-cycle handler, whose records are kept in \<open>world\<close> below. The cursor is a Python
  \<^verbatim>\<open>int\<close>: the constructor accepts any value for it.
\<close>

record MessageHistory =
  message_cycles :: "MessageCycle list"
  summary :: string
  last_trimmed_index :: int

definition new_history :: MessageHistory where
  "new_history = \<lparr>message_cycles = [], summary = ''I was created'', last_trimmed_index = 0\<rparr>"

definition append_cycle :: "MessageHistory \<Rightarrow> MessageCycle \<Rightarrow> MessageHistory" where
  "append_cycle h message_cycle = h\<lparr>message_cycles := message_cycles h @ [message_cycle]\<rparr>"

definition add :: "MessageHistory \<Rightarrow> MessageCycle \<Rightarrow> MessageHistory" where
  "add h message_cycle = append_cycle h message_cycle"

text \<open>The property \<^verbatim>\<open>messages\<close>: the messages of every cycle, in order.\<close>

definition messages :: "MessageHistory \<Rightarrow> Message list" where
  "messages h = concat (map cycle_messages (message_cycles h))"

definition summary_message :: "MessageHistory \<Rightarrow> Message" where
  "summary_message h =
     \<lparr>role = ''system'',
      content = ''This reminds you of these events from your past: '' @ [CHR 0x0A] @ summary h\<rparr>"

section \<open>The environment of the history\<close>

text \<open>
  \<^verbatim>\<open>ValueError\<close> is what \<^verbatim>\<open>list.index\<close> raises when nothing matches;
  \<^verbatim>\<open>CompletionServiceFailure\<close> stands for whatever \<^verbatim>\<open>create_chat_completion\<close> raises.
\<close>

datatype error = ValueError | CompletionServiceFailure

text \<open>The values of a parsed JSON text; a dictionary keeps its keys in order.\<close>

datatype json =
  JNull | JBool bool | JNum int | JStr string | JArr "json list" | JObj "(string \<times> json) list"

type_synonym json_dict = "(string \<times> json) list"

datatype log_file = PROMPT_SUMMARY_FILE_NAME | SUMMARY_FILE_NAME

text \<open>
  What the module imports and the sources do not hold is a parameter of the model:
  \<^item> \<open>debug_mode\<close> is \<^verbatim>\<open>cfg.debug_mode\<close>;
  \<^item> \<open>max_tokens\<close> is \<^verbatim>\<open>OPEN_AI_CHAT_MODELS.get(cfg.fast_llm_model).max_tokens\<close>;
  \<^item> \<open>count_string_tokens\<close> is the token counter at the fast model;
  \<^item> \<open>str_Message\<close> is \<^verbatim>\<open>str\<close> of a \<^verbatim>\<open>Message\<close>;
  \<^item> \<open>extract_json_from_response\<close> returns the parsed dictionary, or \<open>Inl\<close> the text
    of the \<^verbatim>\<open>json.JSONDecodeError\<close> it raises;
  \<^item> \<open>json_dumps\<close> is \<^verbatim>\<open>json.dumps\<close> on a dictionary;
  \<^item> \<open>create_chat_completion k p\<close> is the content of the answer to the prompt \<open>p\<close>
    when it is the request number \<open>k\<close> sent to the service, or \<open>None\<close> when that
    request raises;
  \<^item> \<open>cycle_eq c m\<close> is the outcome of \<^verbatim>\<open>c == m\<close> for a cycle \<open>c\<close> of the history and
    a message \<open>m\<close>, as \<^verbatim>\<open>list.index\<close> evaluates it. The classes of both are outside
    the sources; Python's \<^verbatim>\<open>==\<close> between objects of two classes that define no
    comparison with each other is false, and the theorems that need this say so.
\<close>

record env =
  debug_mode :: bool
  max_tokens :: int
  count_string_tokens :: "string \<Rightarrow> int"
  str_Message :: "Message \<Rightarrow> string"
  extract_json_from_response :: "string \<Rightarrow> string + json_dict"
  json_dumps :: "json_dict \<Rightarrow> string"
  create_chat_completion :: "nat \<Rightarrow> string \<Rightarrow> string option"
  cycle_eq :: "MessageCycle \<Rightarrow> Message \<Rightarrow> bool"

text \<open>
  The effects outside the history: \<open>requests\<close> lists, in order, the summary and the
  batch of every prompt sent to the completion service; \<open>cycle_log\<close> the records
  written through \<^verbatim>\<open>agent.log_cycle_handler.log_cycle\<close>; \<open>error_log\<close> the lines written
  with \<^verbatim>\<open>logger.error\<close>.
\<close>

record world =
  requests :: "(string \<times> Message list) list"
  cycle_log :: "(string \<times> log_file) list"
  error_log :: "string list"

type_synonym state = "MessageHistory \<times> world"

section \<open>Strings and lists of Python\<close>

text \<open>\<^verbatim>\<open>str.lower\<close> on the ASCII letters.\<close>

definition lower_char :: "char \<Rightarrow> char" where
  "lower_char c =
     (let n = (of_char c :: nat) in if 65 \<le> n \<and> n \<le> 90 then char_of (n + 32) else c)"

definition lower :: "string \<Rightarrow> string" where
  "lower s = map lower_char s"

text \<open>\<^verbatim>\<open>sep.join(parts)\<close>.\<close>

fun join :: "string \<Rightarrow> string list \<Rightarrow> string" where
  "join sep [] = []"
| "join sep [x] = x"
| "join sep (x # y # ys) = x @ sep @ join sep (y # ys)"

text \<open>\<^verbatim>\<open>str\<close> of a list of messages: the elements' \<^verbatim>\<open>repr\<close> between brackets.\<close>

definition str_list :: "env \<Rightarrow> Message list \<Rightarrow> string" where
  "str_list E ms = ''['' @ join '', '' (map (str_Message E) ms) @ '']''"

text \<open>
  \<^verbatim>\<open>xs.index(x)\<close>: the position of the first element that compares equal to \<open>x\<close>,
  \<open>None\<close> where Python raises \<^verbatim>\<open>ValueError\<close>.
\<close>

fun index :: "('a \<Rightarrow> 'b \<Rightarrow> bool) \<Rightarrow> 'a list \<Rightarrow> 'b \<Rightarrow> nat option" where
  "index eq [] x = None"
| "index eq (y # ys) x = (if eq y x then Some 0 else map_option Suc (index eq ys x))"

section \<open>Summarising one batch\<close>

definition quotes :: string where
  "quotes = replicate 3 (CHR 0x22)"

definition nl :: string where
  "nl = [CHR 0x0A]"

text \<open>The prompt of \<^verbatim>\<open>summarize_batch\<close>, an f-string over the summary and the batch.\<close>

definition summary_prompt :: "env \<Rightarrow> string \<Rightarrow> Message list \<Rightarrow> string" where
  "summary_prompt E s new_events_batch =
     ''Your task is to create a concise running summary of actions and information results in the provided text, focusing on key and potentially important information to remember.''
     @ nl @ nl
     @ ''You will receive the current summary and your latest actions. Combine them, adding relevant key information from the latest development in 1st person past tense and keeping the summary concise.''
     @ nl @ nl
     @ ''Summary So Far:'' @ nl
     @ quotes @ nl
     @ s @ nl
     @ quotes @ nl @ nl
     @ ''Latest Development:'' @ nl
     @ quotes @ nl
     @ (if new_events_batch = [] then ''Nothing new happened.'' else str_list E new_events_batch)
     @ nl
     @ quotes @ nl"

text \<open>
  \<^verbatim>\<open>summarize_batch\<close>: log the prompt, send it, store the answer as the summary, log
  the summary. When the service raises, the prompt is logged and the summary is the
  one before the call. The record of the prompt is its text (the source logs the chat
  sequence that holds this one user message), and the log-cycle handler returns.
\<close>

definition summarize_batch ::
  "env \<Rightarrow> Message list \<Rightarrow> state \<Rightarrow> (error + unit) \<times> state" where
  "summarize_batch E new_events_batch hw =
     (let h = fst hw; w = snd hw;
          prompt = summary_prompt E (summary h) new_events_batch;
          w1 = w\<lparr>cycle_log := cycle_log w @ [(prompt, PROMPT_SUMMARY_FILE_NAME)],
                 requests := requests w @ [(summary h, new_events_batch)]\<rparr>
      in case create_chat_completion E (length (requests w)) prompt of
           None \<Rightarrow> (Inl CompletionServiceFailure, (h, w1))
         | Some r \<Rightarrow>
             (Inr (), (h\<lparr>summary := r\<rparr>,
                       w1\<lparr>cycle_log := cycle_log w1 @ [(r, SUMMARY_FILE_NAME)]\<rparr>)))"

section \<open>Normalising the events\<close>

text \<open>\<^verbatim>\<open>del content_dict["thoughts"]\<close> when the key is there.\<close>

definition del_thoughts :: "json_dict \<Rightarrow> json_dict" where
  "del_thoughts d =
     (if ''thoughts'' \<in> set (map fst d) then filter (\<lambda>kv. fst kv \<noteq> ''thoughts'') d else d)"

text \<open>
  The lines the handler of \<^verbatim>\<open>json.JSONDecodeError\<close> writes with \<^verbatim>\<open>logger.error\<close>: the
  error, and the content of the event in debug mode.
\<close>

definition json_error_lines :: "env \<Rightarrow> Message \<Rightarrow> string \<Rightarrow> string list" where
  "json_error_lines E event e =
     [''Error: Invalid JSON: '' @ e] @ (if debug_mode E then [content event] else [])"

text \<open>
  The body of the loop \<^verbatim>\<open>for event in new_events\<close> over the copied list, at the
  position \<open>i\<close> of the iterator: the list after the body and the lines it logged.
  \<^verbatim>\<open>new_events.remove(event)\<close> deletes the first element equal to \<open>event\<close>. The list
  holds the events by value: it models a copy whose elements are distinct objects (the
  loop over objects is \<open>normalize_loop_refs\<close> below, and the two are proved to agree
  on such lists).
\<close>

definition normalize_body :: "env \<Rightarrow> nat \<Rightarrow> Message list \<Rightarrow> Message list \<times> string list" where
  "normalize_body E i new_events =
     (let event = new_events ! i in
      if lower (role event) = ''assistant'' then
        (case extract_json_from_response E (content event) of
           Inr content_dict \<Rightarrow>
             (new_events[i := \<lparr>role = ''you'',
                                content = json_dumps E (del_thoughts content_dict)\<rparr>], [])
         | Inl e \<Rightarrow>
             (new_events[i := event\<lparr>role := ''you''\<rparr>], json_error_lines E event e))
      else if lower (role event) = ''system'' then
        (new_events[i := event\<lparr>role := ''your computer''\<rparr>], [])
      else if role event = ''user'' then (remove1 event new_events, [])
      else (new_events, []))"

text \<open>
  The loop itself. Python's list iterator keeps a position \<open>i\<close>, reads \<open>new_events[i]\<close>
  while \<open>i\<close> is below the current length and then moves on by one, whatever the body
  did to the list. \<open>lg\<close> collects the lines of \<^verbatim>\<open>logger.error\<close>.
\<close>

function normalize_loop ::
  "env \<Rightarrow> nat \<Rightarrow> Message list \<Rightarrow> string list \<Rightarrow> Message list \<times> string list" where
  "normalize_loop E i new_events lg =
     (if i < length new_events then
        normalize_loop E (Suc i) (fst (normalize_body E i new_events))
          (lg @ snd (normalize_body E i new_events))
      else (new_events, lg))"
  by pat_completeness auto
termination
  by (relation "measure (\<lambda>(E, i, new_events, lg). length new_events - i)")
     (auto simp: normalize_body_def Let_def length_remove1 split: sum.splits)

declare normalize_loop.simps [simp del]

section \<open>Packing the events into batches\<close>

definition prompt_template_length :: int where
  "prompt_template_length = 100"

text \<open>
  The loop \<^verbatim>\<open>for event in new_events\<close> of the packing, with its variables \<open>batch\<close>,
  \<open>batch_tlength\<close> and \<open>summary_tlength\<close>. It returns the batch left over, or the error
  of the flush that raised, with the state at that point.
\<close>

fun batch_loop ::
  "env \<Rightarrow> Message list \<Rightarrow> Message list \<Rightarrow> int \<Rightarrow> int \<Rightarrow> state
   \<Rightarrow> (error + Message list) \<times> state" where
  "batch_loop E [] batch batch_tlength summary_tlength hw = (Inr batch, hw)"
| "batch_loop E (event # rest) batch batch_tlength summary_tlength hw =
     (let event_tlength = count_string_tokens E (str_Message E event) in
      if batch_tlength + event_tlength
           > max_tokens E - prompt_template_length - summary_tlength
      then
        (case summarize_batch E batch hw of
           (Inl e, hw') \<Rightarrow> (Inl e, hw')
         | (Inr u, hw') \<Rightarrow>
             batch_loop E rest [event] event_tlength
               (count_string_tokens E (summary (fst hw'))) hw')
      else batch_loop E rest (batch @ [event]) (batch_tlength + event_tlength)
             summary_tlength hw)"

text \<open>
  The second half of \<^verbatim>\<open>update_running_summary\<close>, from the comment
  \<^verbatim>\<open>Summarize events and current summary in batch\<close> on: pack the normalised events,
  flush the batch that is left, return the summary message. \<open>lg\<close> holds the lines the
  normalisation logged before.
\<close>

definition summarize_events ::
  "env \<Rightarrow> Message list \<Rightarrow> string list \<Rightarrow> state \<Rightarrow> (error + Message) \<times> state" where
  "summarize_events E events lg hw =
     (let hw0 = (fst hw, (snd hw)\<lparr>error_log := error_log (snd hw) @ lg\<rparr>);
          summary_tlength = count_string_tokens E (summary (fst hw0))
      in case batch_loop E events [] 0 summary_tlength hw0 of
           (Inl e, hw') \<Rightarrow> (Inl e, hw')
         | (Inr batch, hw') \<Rightarrow>
             if batch \<noteq> [] then
               (case summarize_batch E batch hw' of
                  (Inl e, hw'') \<Rightarrow> (Inl e, hw'')
                | (Inr u, hw'') \<Rightarrow> (Inr (summary_message (fst hw'')), hw''))
             else (Inr (summary_message (fst hw')), hw'))"

text \<open>\<^verbatim>\<open>update_running_summary\<close>, on events held by value.\<close>

definition update_running_summary ::
  "env \<Rightarrow> Message list \<Rightarrow> state \<Rightarrow> (error + Message) \<times> state" where
  "update_running_summary E new_events hw =
     (if new_events = [] then (Inr (summary_message (fst hw)), hw)
      else summarize_events E (fst (normalize_loop E 0 new_events []))
             (snd (normalize_loop E 0 new_events [])) hw)"

section \<open>Trimming\<close>

text \<open>The two comprehensions of \<^verbatim>\<open>trim_messages\<close>.\<close>

definition new_messages :: "MessageHistory \<Rightarrow> Message list" where
  "new_messages h =
     map snd (filter (\<lambda>(i, msg). int i > last_trimmed_index h) (enumerate 0 (messages h)))"

definition new_messages_not_in_chain :: "MessageHistory \<Rightarrow> Message list \<Rightarrow> Message list" where
  "new_messages_not_in_chain h current_message_chain =
     filter (\<lambda>msg. msg \<notin> set current_message_chain) (new_messages h)"

text \<open>
  \<^verbatim>\<open>trim_messages\<close>. The cursor is assigned from \<^verbatim>\<open>self.message_cycles.index(last_message)\<close>,
  a search for the message among the cycles; where that raises, the summary has been
  updated already and the cursor has not.
\<close>

definition trim_messages ::
  "env \<Rightarrow> Message list \<Rightarrow> state \<Rightarrow> (error + Message \<times> Message list) \<times> state" where
  "trim_messages E current_message_chain hw =
     (let stale = new_messages_not_in_chain (fst hw) current_message_chain in
      if stale = [] then (Inr (summary_message (fst hw), []), hw)
      else
        (case update_running_summary E stale hw of
           (Inl e, hw') \<Rightarrow> (Inl e, hw')
         | (Inr new_summary_message, hw') \<Rightarrow>
             (let last_message = last stale in
              case index (cycle_eq E) (message_cycles (fst hw')) last_message of
                None \<Rightarrow> (Inl ValueError, hw')
              | Some k \<Rightarrow>
                  (Inr (new_summary_message, stale),
                   ((fst hw')\<lparr>last_trimmed_index := int k\<rparr>, snd hw')))))"

section \<open>The events as objects\<close>

text \<open>
  The definitions above hold the events by value. Here the messages are objects: the
  heap is the array of the objects that exist, a reference is a position in it, and a
  list of events is a list of references, in which the same object may occur twice.
\<close>

type_synonym ref = nat

type_synonym heap = "Message list"

text \<open>
  \<^verbatim>\<open>copy.deepcopy(new_events)\<close>: a new list that holds, for every element of
  \<open>new_events\<close>, a new object with the same role and content; an object met again is
  copied once (\<open>memo\<close> maps the objects copied so far to their copies).
\<close>

fun deepcopy :: "heap \<Rightarrow> (ref \<times> ref) list \<Rightarrow> ref list \<Rightarrow> heap \<times> ref list" where
  "deepcopy hp memo [] = (hp, [])"
| "deepcopy hp memo (r # rs) =
     (case map_of memo r of
        Some r' \<Rightarrow> (fst (deepcopy hp memo rs), r' # snd (deepcopy hp memo rs))
      | None \<Rightarrow>
          (fst (deepcopy (hp @ [hp ! r]) ((r, length hp) # memo) rs),
           length hp # snd (deepcopy (hp @ [hp ! r]) ((r, length hp) # memo) rs)))"

text \<open>
  \<^verbatim>\<open>new_events.remove(event)\<close> on references: the first element that is \<open>event\<close> or
  is equal to it by value goes.
\<close>

definition remove_event :: "heap \<Rightarrow> ref \<Rightarrow> ref list \<Rightarrow> ref list" where
  "remove_event hp event new_events =
     (case find (\<lambda>r. r = event \<or> hp ! r = hp ! event) new_events of
        None \<Rightarrow> new_events
      | Some r \<Rightarrow> remove1 r new_events)"

text \<open>The body of the normalisation loop, writing to the object \<open>event\<close>.\<close>

definition normalize_body_refs ::
  "env \<Rightarrow> nat \<Rightarrow> heap \<Rightarrow> ref list \<Rightarrow> heap \<times> ref list \<times> string list" where
  "normalize_body_refs E i hp new_events =
     (let event = new_events ! i in
      if lower (role (hp ! event)) = ''assistant'' then
        (case extract_json_from_response E (content (hp ! event)) of
           Inr content_dict \<Rightarrow>
             (hp[event := \<lparr>role = ''you'',
                           content = json_dumps E (del_thoughts content_dict)\<rparr>],
              new_events, [])
         | Inl e \<Rightarrow>
             (hp[event := (hp ! event)\<lparr>role := ''you''\<rparr>], new_events,
              json_error_lines E (hp ! event) e))
      else if lower (role (hp ! event)) = ''system'' then
        (hp[event := (hp ! event)\<lparr>role := ''your computer''\<rparr>], new_events, [])
      else if role (hp ! event) = ''user'' then (hp, remove_event hp event new_events, [])
      else (hp, new_events, []))"

function normalize_loop_refs ::
  "env \<Rightarrow> nat \<Rightarrow> heap \<Rightarrow> ref list \<Rightarrow> string list \<Rightarrow> heap \<times> ref list \<times> string list" where
  "normalize_loop_refs E i hp new_events lg =
     (if i < length new_events then
        normalize_loop_refs E (Suc i)
          (fst (normalize_body_refs E i hp new_events))
          (fst (snd (normalize_body_refs E i hp new_events)))
          (lg @ snd (snd (normalize_body_refs E i hp new_events)))
      else (hp, new_events, lg))"
  by pat_completeness auto
termination
  by (relation "measure (\<lambda>(E, i, hp, new_events, lg). length new_events - i)")
     (auto simp: normalize_body_refs_def remove_event_def Let_def length_remove1
           split: sum.splits option.splits)

declare normalize_loop_refs.simps [simp del]

text \<open>
  \<^verbatim>\<open>update_running_summary\<close> on a list of objects: copy, normalise the copies, then
  summarise the events read from them. The result comes with the heap after the call.
\<close>

definition update_running_summary_refs ::
  "env \<Rightarrow> ref list \<Rightarrow> heap \<Rightarrow> state \<Rightarrow> ((error + Message) \<times> state) \<times> heap" where
  "update_running_summary_refs E new_events hp hw =
     (if new_events = [] then ((Inr (summary_message (fst hw)), hw), hp)
      else
        (let copied = deepcopy hp [] new_events;
             normalized = normalize_loop_refs E 0 (fst copied) (snd copied) []
         in (summarize_events E
               (map (\<lambda>r. fst normalized ! r) (fst (snd normalized)))
               (snd (snd normalized)) hw,
             fst normalized)))"

section \<open>The requests of a call\<close>

text \<open>
  The token length of a batch as the packing loop adds it up, and the bound the loop
  compares it with when the summary is \<open>s\<close>.
\<close>

definition batch_tokens :: "env \<Rightarrow> Message list \<Rightarrow> int" where
  "batch_tokens E batch =
     sum_list (map (\<lambda>event. count_string_tokens E (str_Message E event)) batch)"

definition budget :: "env \<Rightarrow> string \<Rightarrow> int" where
  "budget E s = max_tokens E - prompt_template_length - count_string_tokens E s"

text \<open>The requests a call added to the world \<open>w\<close>, given the world \<open>w'\<close> it left.\<close>

definition new_requests :: "world \<Rightarrow> world \<Rightarrow> (string \<times> Message list) list" where
  "new_requests w w' = drop (length (requests w)) (requests w')"

text \<open>
  \<open>replay E k s rs\<close> reads a list of requests against the service: the first is
  request number \<open>k\<close> and is sent with the summary \<open>s\<close>; an answered request makes
  its answer the summary the next one is sent with; a request that raises is the last
  one. The result is the summary at the end and whether the last request raised, or
  \<open>None\<close> when the list is not of that shape.
\<close>

fun replay ::
  "env \<Rightarrow> nat \<Rightarrow> string \<Rightarrow> (string \<times> Message list) list \<Rightarrow> (string \<times> bool) option" where
  "replay E k s [] = Some (s, False)"
| "replay E k s (q # rs) =
     (if fst q \<noteq> s then None
      else case create_chat_completion E k (summary_prompt E s (snd q)) of
             None \<Rightarrow> if rs = [] then Some (s, True) else None
           | Some r \<Rightarrow> replay E (Suc k) r rs)"

text \<open>
  \<open>within_budget E initial rs\<close>: every request of \<open>rs\<close> whose batch holds two events
  or more, and the first one when \<open>initial\<close> is set and its batch is not empty, has a
  batch within the budget of the summary it is sent with.
\<close>

fun within_budget :: "env \<Rightarrow> bool \<Rightarrow> (string \<times> Message list) list \<Rightarrow> bool" where
  "within_budget E initial [] = True"
| "within_budget E initial (q # rs) =
     ((if 2 \<le> length (snd q) \<or> (initial \<and> snd q \<noteq> [])
       then batch_tokens E (snd q) \<le> budget E (fst q) else True)
      \<and> within_budget E False rs)"

section \<open>Sequences of calls\<close>

text \<open>
  What a caller does with one history: append a cycle, or trim against a chain. The
  history and the world after a call that raised are the ones the exception left.
\<close>

datatype call = Append MessageCycle | Trim "Message list"

fun step :: "env \<Rightarrow> call \<Rightarrow> state \<Rightarrow> state" where
  "step E (Append message_cycle) hw = (append_cycle (fst hw) message_cycle, snd hw)"
| "step E (Trim current_message_chain) hw = snd (trim_messages E current_message_chain hw)"

text \<open>The value of the cursor after each call of a sequence.\<close>

fun cursor_trace :: "env \<Rightarrow> call list \<Rightarrow> state \<Rightarrow> int list" where
  "cursor_trace E [] hw = []"
| "cursor_trace E (c # cs) hw =
     (let hw' = step E c hw in last_trimmed_index (fst hw') # cursor_trace E cs hw')"

section \<open>Example inputs\<close>

definition msg :: "string \<Rightarrow> string \<Rightarrow> Message" where
  "msg r c = \<lparr>role = r, content = c\<rparr>"

text \<open>
  An environment to run the model in: a token is a character, no content parses as JSON,
  the service always answers, and a cycle never compares equal to a message (what
  Python's \<^verbatim>\<open>==\<close> gives for objects of two classes that define no comparison with
  each other).
\<close>

definition example_env :: env where
  "example_env =
     \<lparr>debug_mode = False, max_tokens = 4096,
      count_string_tokens = (\<lambda>s. int (length s)),
      str_Message = (\<lambda>m. role m @ '': '' @ content m),
      extract_json_from_response = (\<lambda>s. Inl ''no JSON''),
      json_dumps = (\<lambda>d. ''{}''),
      create_chat_completion = (\<lambda>k p. Some ''summary''),
      cycle_eq = (\<lambda>c m. False)\<rparr>"

definition empty_world :: world where
  "empty_world = \<lparr>requests = [], cycle_log = [], error_log = []\<rparr>"

text \<open>A history of two cycles whose messages are \<open>m0\<close>, \<open>m1\<close>, \<open>m2\<close>, \<open>m3\<close>.\<close>

definition chain_diff_history :: MessageHistory where
  "chain_diff_history =
     \<lparr>message_cycles =
        [\<lparr>cycle_messages = [msg ''system'' ''m0'', msg ''system'' ''m1'']\<rparr>,
         \<lparr>cycle_messages = [msg ''system'' ''m2'', msg ''system'' ''m3'']\<rparr>],
      summary = ''I was created'', last_trimmed_index = 0\<rparr>"

text \<open>The example environment with a context of 140 tokens.\<close>

definition tight_env :: env where
  "tight_env = example_env\<lparr>max_tokens := 140\<rparr>"

text \<open>The example environment with a context of 150 tokens.\<close>

definition roomy_env :: env where
  "roomy_env = example_env\<lparr>max_tokens := 150\<rparr>"

text \<open>The environment of 140 tokens, with a service that answers the first request and raises on the second.\<close>

definition failing_env :: env where
  "failing_env =
     tight_env\<lparr>create_chat_completion :=
       (\<lambda>k p. if k = 0 then Some ''first summary''
              else if k = 1 then None else Some ''later summary'')\<rparr>"

text \<open>
  An environment with a small parser and printer of JSON: one content parses, to the
  dictionary with the keys \<open>thoughts\<close> and \<open>action\<close>.
\<close>

definition dq :: string where
  "dq = [CHR 0x22]"

fun example_value :: "json \<Rightarrow> string" where
  "example_value (JStr s) = dq @ s @ dq"
| "example_value v = ''null''"

definition example_dumps :: "json_dict \<Rightarrow> string" where
  "example_dumps d =
     ''{'' @ join '', '' (map (\<lambda>kv. dq @ fst kv @ dq @ '': '' @ example_value (snd kv)) d)
     @ ''}''"

definition thoughts_action :: json_dict where
  "thoughts_action = [(''thoughts'', JStr ''x''), (''action'', JStr ''y'')]"

definition json_env :: env where
  "json_env =
     example_env
       \<lparr>extract_json_from_response :=
          (\<lambda>s. if s = example_dumps thoughts_action then Inr thoughts_action
               else Inl ''Expecting value''),
        json_dumps := example_dumps\<rparr>"

text \<open>
  An environment whose comparison takes a cycle for equal to every message it holds;
  a fresh history of two cycles of one message each; and a history of three cycles of
  one message each, the third equal to the first, with the cursor at 1.
\<close>

definition lenient_env :: env where
  "lenient_env = example_env\<lparr>cycle_eq := (\<lambda>c m. m \<in> set (cycle_messages c))\<rparr>"


definition repeating_history :: MessageHistory where
  "repeating_history =
     \<lparr>message_cycles =
        [\<lparr>cycle_messages = [msg ''system'' ''a'']\<rparr>,
         \<lparr>cycle_messages = [msg ''system'' ''b'']\<rparr>,
         \<lparr>cycle_messages = [msg ''system'' ''a'']\<rparr>],
      summary = ''I was created'', last_trimmed_index = 1\<rparr>"

text \<open>A heap of three objects.\<close>

definition example_heap :: heap where
  "example_heap = [msg ''user'' ''a'', msg ''assistant'' ''b'', msg ''system'' ''c'']"

section \<open>The summary message\<close>

text \<open>
  Claim C9. For every summary string \<open>s\<close>, \<open>summary_message\<close> is the system-role message
  whose content is the framing sentence, a newline, and \<open>s\<close>; for the summary
  \<open>I found a key\<close> it is that sentence followed by \<open>I found a key\<close>. The function reads
  the store and returns a message only, so the store is the same after the call.
\<close>

theorem summary_message_framing:
  "role (summary_message (h\<lparr>summary := s\<rparr>)) = ''system''
   \<and> content (summary_message (h\<lparr>summary := s\<rparr>))
       = ''This reminds you of these events from your past: '' @ [CHR 0x0A] @ s
   \<and> summary_message (h\<lparr>summary := ''I found a key''\<rparr>)
       = \<lparr>role = ''system'',
          content = ''This reminds you of these events from your past: '' @ [CHR 0x0A]
                    @ ''I found a key''\<rparr>"
  by (simp add: summary_message_def)

section \<open>What the summarisation leaves alone\<close>

lemma summarize_batch_frame:
  "summarize_batch E b hw = (r, hw') \<Longrightarrow>
     message_cycles (fst hw') = message_cycles (fst hw)
     \<and> last_trimmed_index (fst hw') = last_trimmed_index (fst hw)"
  by (auto simp: summarize_batch_def Let_def split: option.splits)

lemma batch_loop_frame:
  "batch_loop E evs b bt st hw = (r, hw') \<Longrightarrow>
     message_cycles (fst hw') = message_cycles (fst hw)
     \<and> last_trimmed_index (fst hw') = last_trimmed_index (fst hw)"
proof (induction evs arbitrary: b bt st hw)
  case Nil
  then show ?case by simp
next
  case (Cons e evs)
  show ?case
  proof (cases "bt + count_string_tokens E (str_Message E e)
                  > max_tokens E - prompt_template_length - st")
    case True
    obtain r1 hw1 where s: "summarize_batch E b hw = (r1, hw1)"
      by (cases "summarize_batch E b hw")
    note f = summarize_batch_frame[OF s]
    show ?thesis
    proof (cases r1)
      case (Inl e')
      with Cons.prems True s f show ?thesis by (simp add: Let_def)
    next
      case (Inr u)
      with Cons.prems True s have
        "batch_loop E evs [e] (count_string_tokens E (str_Message E e))
            (count_string_tokens E (summary (fst hw1))) hw1 = (r, hw')"
        by (simp add: Let_def)
      from Cons.IH[OF this] f show ?thesis by simp
    qed
  next
    case False
    with Cons.prems have
      "batch_loop E evs (b @ [e]) (bt + count_string_tokens E (str_Message E e)) st hw
         = (r, hw')"
      by (simp add: Let_def)
    from Cons.IH[OF this] show ?thesis .
  qed
qed

lemma summarize_events_frame:
  assumes "summarize_events E events lg hw = (r, hw')"
  shows "message_cycles (fst hw') = message_cycles (fst hw)
     \<and> last_trimmed_index (fst hw') = last_trimmed_index (fst hw)"
proof -
  define hw0 where "hw0 = (fst hw, (snd hw)\<lparr>error_log := error_log (snd hw) @ lg\<rparr>)"
  obtain r1 hw1 where
    b: "batch_loop E events [] 0 (count_string_tokens E (summary (fst hw0))) hw0 = (r1, hw1)"
    by (cases "batch_loop E events [] 0 (count_string_tokens E (summary (fst hw0))) hw0")
  note f1 = batch_loop_frame[OF b]
  have h0: "message_cycles (fst hw0) = message_cycles (fst hw)"
     "last_trimmed_index (fst hw0) = last_trimmed_index (fst hw)"
    by (simp_all add: hw0_def)
  show ?thesis
  proof (cases r1)
    case (Inl e)
    with assms b f1 h0 show ?thesis
      by (auto simp: summarize_events_def Let_def hw0_def)
  next
    case (Inr batch)
    show ?thesis
    proof (cases "batch = []")
      case True
      with Inr assms b f1 h0 show ?thesis
        by (auto simp: summarize_events_def Let_def hw0_def)
    next
      case nonempty: False
      obtain r2 hw2 where s: "summarize_batch E batch hw1 = (r2, hw2)"
        by (cases "summarize_batch E batch hw1")
      note f2 = summarize_batch_frame[OF s]
      from Inr assms b s nonempty have "hw' = hw2"
        by (cases r2) (auto simp: summarize_events_def Let_def hw0_def)
      with f1 f2 h0 show ?thesis by simp
    qed
  qed
qed

lemma update_running_summary_frame:
  assumes "update_running_summary E evs hw = (r, hw')"
  shows "message_cycles (fst hw') = message_cycles (fst hw)
     \<and> last_trimmed_index (fst hw') = last_trimmed_index (fst hw)"
proof (cases "evs = []")
  case True
  with assms show ?thesis by (simp add: update_running_summary_def)
next
  case False
  with assms summarize_events_frame show ?thesis
    by (simp add: update_running_summary_def)
qed

section \<open>The candidates and the cursor\<close>

lemma index_bound: "index eq xs x = Some k \<Longrightarrow> k < length xs"
  by (induction xs arbitrary: k) (auto split: if_splits)

lemma index_never: "(\<And>y. \<not> eq y x) \<Longrightarrow> index eq xs x = None"
  by (induction xs) auto

lemma filter_enumerate_drop:
  "map snd (filter (\<lambda>(i, msg). int i > c) (enumerate n xs)) = drop (nat (c + 1) - n) xs"
proof (induction xs arbitrary: n)
  case Nil
  then show ?case by simp
next
  case (Cons x xs)
  show ?case
  proof (cases "int n > c")
    case True
    then have "nat (c + 1) - n = 0" "nat (c + 1) - Suc n = 0" by simp_all
    with True Cons.IH[of "Suc n"] show ?thesis by simp
  next
    case False
    then have "nat (c + 1) - n = Suc (nat (c + 1) - Suc n)" by linarith
    with False Cons.IH[of "Suc n"] show ?thesis by simp
  qed
qed

text \<open>The candidates are the messages past the cursor.\<close>

lemma new_messages_drop:
  "new_messages h = drop (nat (last_trimmed_index h + 1)) (messages h)"
  by (simp add: new_messages_def filter_enumerate_drop)

text \<open>
  After \<open>trim_messages\<close>, whatever it returned, the cycles are the same and the cursor
  is the old one or the position \<^verbatim>\<open>list.index\<close> found among the cycles.
\<close>

lemma trim_cursor_cases:
  assumes "trim_messages E chain hw = (r, hw')"
  shows "message_cycles (fst hw') = message_cycles (fst hw) \<and>
         (last_trimmed_index (fst hw') = last_trimmed_index (fst hw)
          \<or> (\<exists>k. index (cycle_eq E) (message_cycles (fst hw))
                     (last (new_messages_not_in_chain (fst hw) chain)) = Some k
                \<and> last_trimmed_index (fst hw') = int k))"
proof (cases "new_messages_not_in_chain (fst hw) chain = []")
  case True
  with assms show ?thesis by (simp add: trim_messages_def)
next
  case False
  define stale where "stale = new_messages_not_in_chain (fst hw) chain"
  obtain r1 hw1 where u: "update_running_summary E stale hw = (r1, hw1)"
    by (cases "update_running_summary E stale hw")
  note f = update_running_summary_frame[OF u]
  show ?thesis
  proof (cases r1)
    case (Inl e)
    with assms False u f show ?thesis by (simp add: trim_messages_def stale_def)
  next
    case (Inr m)
    show ?thesis
    proof (cases "index (cycle_eq E) (message_cycles (fst hw1)) (last stale)")
      case None
      with Inr assms False u f show ?thesis by (simp add: trim_messages_def stale_def)
    next
      case (Some k)
      with Inr assms False u f show ?thesis
        by (auto simp: trim_messages_def stale_def Let_def)
    qed
  qed
qed

text \<open>
  Claim C1. On the history whose messages are \<open>m0\<close>, \<open>m1\<close>, \<open>m2\<close>, \<open>m3\<close>, in two cycles of
  two, with the cursor at 0 and the chain \<open>[m2]\<close>, the stale messages are \<open>m1\<close> and \<open>m3\<close>;
  the cursor after \<open>trim_messages\<close> is below 2, so it is not 3, whatever the
  environment: the search for \<open>m3\<close> runs over the two cycles.
\<close>

theorem trim_chain_diff_cursor:
  "new_messages_not_in_chain chain_diff_history [msg ''system'' ''m2'']
     = [msg ''system'' ''m1'', msg ''system'' ''m3'']
   \<and> last_trimmed_index (fst (snd (trim_messages E [msg ''system'' ''m2'']
                                      (chain_diff_history, w)))) < 2"
proof -
  obtain r hw' where
    t: "trim_messages E [msg ''system'' ''m2''] (chain_diff_history, w) = (r, hw')"
    by (cases "trim_messages E [msg ''system'' ''m2''] (chain_diff_history, w)")
  have len: "length (message_cycles chain_diff_history) = 2"
    and c0: "last_trimmed_index chain_diff_history = 0"
    by (simp_all add: chain_diff_history_def)
  from trim_cursor_cases[OF t] consider
      "last_trimmed_index (fst hw') = last_trimmed_index chain_diff_history"
    | k where "index (cycle_eq E) (message_cycles chain_diff_history)
                 (last (new_messages_not_in_chain chain_diff_history [msg ''system'' ''m2'']))
               = Some k" "last_trimmed_index (fst hw') = int k"
    by auto
  then have "last_trimmed_index (fst hw') < 2"
  proof cases
    case 1
    with c0 show ?thesis by simp
  next
    case 2
    from index_bound[OF 2(1)] len 2(2) show ?thesis by simp
  qed
  moreover have "new_messages_not_in_chain chain_diff_history [msg ''system'' ''m2'']
     = [msg ''system'' ''m1'', msg ''system'' ''m3'']"
    by (simp add: new_messages_not_in_chain_def new_messages_drop messages_def
          chain_diff_history_def msg_def)
  ultimately show ?thesis using t by simp
qed

text \<open>
  The same call in the example environment: the summary is updated, then the search
  raises and the cursor stays at 0.
\<close>

lemma trim_chain_diff_raises:
  "fst (trim_messages example_env [msg ''system'' ''m2''] (chain_diff_history, empty_world))
     = Inl ValueError
   \<and> last_trimmed_index
       (fst (snd (trim_messages example_env [msg ''system'' ''m2'']
                    (chain_diff_history, empty_world)))) = 0
   \<and> summary
       (fst (snd (trim_messages example_env [msg ''system'' ''m2'']
                    (chain_diff_history, empty_world)))) = ''summary''"
  by code_simp

lemma step_cursor:
  assumes "\<And>c m. \<not> cycle_eq E c m"
  shows "last_trimmed_index (fst (step E c hw)) = last_trimmed_index (fst hw)"
proof (cases c)
  case (Append x)
  then show ?thesis by (simp add: append_cycle_def)
next
  case (Trim chain)
  obtain r hw' where t: "trim_messages E chain hw = (r, hw')"
    by (cases "trim_messages E chain hw")
  from trim_cursor_cases[OF t] index_never[of "cycle_eq E"] assms Trim t show ?thesis
    by auto
qed

text \<open>
  Where no cycle ever compares equal to a message, the search raises on every trim
  that summarised, and the cursor is never written: it keeps its first value along
  every sequence of calls.
\<close>

lemma cursor_constant_without_match:
  assumes "\<And>c m. \<not> cycle_eq E c m"
  shows "cursor_trace E cs hw = replicate (length cs) (last_trimmed_index (fst hw))"
proof (induction cs arbitrary: hw)
  case Nil
  show ?case by simp
next
  case (Cons c cs)
  from Cons.IH[of "step E c hw"] step_cursor[OF assms, of c hw]
  show ?case by (simp add: Let_def)
qed

text \<open>
  Where the search succeeds, the cursor is written with the position of the first
  cycle that compares equal to the last stale message: on the history of the example
  it becomes 1, a position among the cycles, and on the repeating history it goes back
  from 1 to 0.
\<close>

lemma cursor_when_cycles_match:
  "new_messages_not_in_chain repeating_history [] = [msg ''system'' ''a'']
   \<and> last_trimmed_index
       (fst (snd (trim_messages lenient_env [] (repeating_history, empty_world)))) = 0
   \<and> last_trimmed_index
       (fst (snd (trim_messages lenient_env [msg ''system'' ''m2'']
                    (chain_diff_history, empty_world)))) = 1"
  by code_simp


text \<open>
  Claim C6. Whenever no message past the cursor is missing from the chain,
  \<open>trim_messages\<close> returns the summary message of the history as it is and the empty
  list, and the history and the world are the ones it was given: no request, no new
  summary, the same cursor.
\<close>

theorem trim_noop:
  "new_messages_not_in_chain h chain = [] \<Longrightarrow>
   trim_messages E chain (h, w) = (Inr (summary_message h, []), (h, w))"
  by (simp add: trim_messages_def)

theorem trim_noop_witness:
  "new_messages_not_in_chain chain_diff_history
      [msg ''system'' ''m3'', msg ''system'' ''m1'', msg ''system'' ''m2''] = []
   \<and> trim_messages example_env
        [msg ''system'' ''m3'', msg ''system'' ''m1'', msg ''system'' ''m2'']
        (chain_diff_history, empty_world)
      = (Inr (summary_message chain_diff_history, []), (chain_diff_history, empty_world))"
proof -
  have e: "new_messages_not_in_chain chain_diff_history
      [msg ''system'' ''m3'', msg ''system'' ''m1'', msg ''system'' ''m2''] = []"
    by (simp add: new_messages_not_in_chain_def new_messages_drop messages_def
          chain_diff_history_def msg_def)
  from trim_noop[OF e] e show ?thesis by blast
qed





section \<open>The normalisation loop\<close>

lemma lower_assistant: "lower ''assistant'' = ''assistant''"
  by (simp add: lower_def lower_char_def)

lemma normalize_loop_done: "\<not> i < length evs \<Longrightarrow> normalize_loop E i evs lg = (evs, lg)"
  by (subst normalize_loop.simps) simp

lemma normalize_loop_step:
  "i < length evs \<Longrightarrow>
   normalize_loop E i evs lg
     = normalize_loop E (Suc i) (fst (normalize_body E i evs))
         (lg @ snd (normalize_body E i evs))"
  by (subst normalize_loop.simps) simp

text \<open>The lines logged so far are carried along.\<close>

lemma normalize_loop_log:
  "normalize_loop E i evs (lg0 @ lg)
     = (fst (normalize_loop E i evs lg), lg0 @ snd (normalize_loop E i evs lg))"
proof (induction E i evs lg arbitrary: lg0 rule: normalize_loop.induct)
  case (1 E i evs lg)
  show ?case
  proof (cases "i < length evs")
    case False
    then show ?thesis by (simp add: normalize_loop_done)
  next
    case True
    from "1.IH"[OF True, of lg0] show ?thesis
      by (simp add: normalize_loop_step[OF True])
  qed
qed

lemma normalize_body_shift:
  assumes "i < length evs" "role x \<noteq> ''user''"
  shows "normalize_body E (Suc i) (x # evs)
           = (x # fst (normalize_body E i evs), snd (normalize_body E i evs))"
proof -
  have "role (evs ! i) = ''user'' \<Longrightarrow> x \<noteq> evs ! i" using assms(2) by auto
  then show ?thesis
    by (auto simp: normalize_body_def Let_def split: sum.splits)
qed

text \<open>
  An event the iterator has passed and that is not a user message stays where it is:
  the loop goes on over the rest as it would on the rest alone.
\<close>

lemma normalize_loop_shift:
  "role x \<noteq> ''user'' \<Longrightarrow>
   normalize_loop E (Suc i) (x # evs) lg
     = (x # fst (normalize_loop E i evs lg), snd (normalize_loop E i evs lg))"
proof (induction E i evs lg rule: normalize_loop.induct)
  case (1 E i evs lg)
  show ?case
  proof (cases "i < length evs")
    case False
    then show ?thesis by (simp add: normalize_loop_done)
  next
    case True
    then have T: "Suc i < length (x # evs)" by simp
    show ?thesis
      unfolding normalize_loop_step[OF T] normalize_loop_step[OF True]
        normalize_body_shift[OF True "1.prems"]
      using "1.IH"[OF True "1.prems"] by simp
  qed
qed

text \<open>
  Claim C4. The loop removes a user message from the list it is iterating over, and
  the iterator then steps over the event that moved into the freed position. On the
  events user \<open>a\<close>, user \<open>b\<close> the second user message survives; on user \<open>a\<close>,
  assistant \<open>c\<close>, system \<open>d\<close> the assistant message is stepped over and keeps its role.
\<close>

theorem user_removal_skips:
  "normalize_loop E 0 [msg ''user'' ''a'', msg ''user'' ''b''] [] = ([msg ''user'' ''b''], [])
   \<and> normalize_loop E 0 [msg ''user'' ''a'', msg ''assistant'' ''c'', msg ''system'' ''d''] []
       = ([msg ''assistant'' ''c'', msg ''your computer'' ''d''], [])"
  by (simp add: normalize_loop.simps normalize_body_def msg_def lower_def lower_char_def)

lemma del_thoughts_keys:
  "''thoughts'' \<notin> set (map fst (del_thoughts d))"
  "k \<noteq> ''thoughts'' \<Longrightarrow> k \<in> set (map fst (del_thoughts d)) \<longleftrightarrow> k \<in> set (map fst d)"
  by (auto simp: del_thoughts_def)

text \<open>
  At the head of the list the assistant event is normalised. When its content parses
  to the dictionary with the keys \<open>thoughts\<close> and \<open>action\<close>, it becomes the event of role
  \<open>you\<close> whose content is the dictionary with \<open>action\<close> alone, printed as JSON. When
  its content does not parse, it becomes the event of role \<open>you\<close> with the same
  content and the error lines are logged. In both cases the loop goes on over the
  following events and returns.
\<close>

lemma thoughts_stripping_at_head:
  "(extract_json_from_response E c = Inr [(''thoughts'', JStr ''x''), (''action'', JStr ''y'')]
      \<longrightarrow> normalize_loop E 0 (msg ''assistant'' c # rest) []
            = (msg ''you'' (json_dumps E [(''action'', JStr ''y'')])
                 # fst (normalize_loop E 0 rest []),
               snd (normalize_loop E 0 rest [])))
   \<and> (extract_json_from_response E c = Inl e
      \<longrightarrow> normalize_loop E 0 (msg ''assistant'' c # rest) []
            = (msg ''you'' c # fst (normalize_loop E 0 rest []),
               json_error_lines E (msg ''assistant'' c) e @ snd (normalize_loop E 0 rest [])))"
proof (intro conjI impI)
  assume x: "extract_json_from_response E c
               = Inr [(''thoughts'', JStr ''x''), (''action'', JStr ''y'')]"
  have b: "normalize_body E 0 (msg ''assistant'' c # rest)
             = (msg ''you'' (json_dumps E [(''action'', JStr ''y'')]) # rest, [])"
    by (simp add: normalize_body_def msg_def lower_assistant x del_thoughts_def)
  have "normalize_loop E 0 (msg ''assistant'' c # rest) []
          = normalize_loop E (Suc 0)
              (msg ''you'' (json_dumps E [(''action'', JStr ''y'')]) # rest) []"
    by (simp add: normalize_loop_step b)
  also have "\<dots> = (msg ''you'' (json_dumps E [(''action'', JStr ''y'')])
                 # fst (normalize_loop E 0 rest []), snd (normalize_loop E 0 rest []))"
    by (rule normalize_loop_shift) (simp add: msg_def)
  finally show "normalize_loop E 0 (msg ''assistant'' c # rest) []
            = (msg ''you'' (json_dumps E [(''action'', JStr ''y'')])
                 # fst (normalize_loop E 0 rest []),
               snd (normalize_loop E 0 rest []))" .
next
  assume x: "extract_json_from_response E c = Inl e"
  let ?d = "json_error_lines E (msg ''assistant'' c) e"
  have b: "normalize_body E 0 (msg ''assistant'' c # rest) = (msg ''you'' c # rest, ?d)"
    by (simp add: normalize_body_def msg_def lower_assistant x)
  have "normalize_loop E 0 (msg ''assistant'' c # rest) []
          = normalize_loop E (Suc 0) (msg ''you'' c # rest) (?d @ [])"
    by (simp add: normalize_loop_step b)
  also have "\<dots> = (fst (normalize_loop E (Suc 0) (msg ''you'' c # rest) []),
                   ?d @ snd (normalize_loop E (Suc 0) (msg ''you'' c # rest) []))"
    by (rule normalize_loop_log)
  also have "normalize_loop E (Suc 0) (msg ''you'' c # rest) []
       = (msg ''you'' c # fst (normalize_loop E 0 rest []), snd (normalize_loop E 0 rest []))"
    by (rule normalize_loop_shift) (simp add: msg_def)
  finally show "normalize_loop E 0 (msg ''assistant'' c # rest) []
            = (msg ''you'' c # fst (normalize_loop E 0 rest []),
               json_error_lines E (msg ''assistant'' c) e @ snd (normalize_loop E 0 rest []))"
    by simp
qed

lemma thoughts_stripping_at_head_example:
  "extract_json_from_response json_env (example_dumps thoughts_action)
     = Inr [(''thoughts'', JStr ''x''), (''action'', JStr ''y'')]
   \<and> normalize_loop json_env 0
        [msg ''assistant'' (example_dumps thoughts_action), msg ''system'' ''ok''] []
      = ([msg ''you'' (example_dumps [(''action'', JStr ''y'')]), msg ''your computer'' ''ok''],
         [])
   \<and> extract_json_from_response json_env ''not json'' = Inl ''Expecting value''
   \<and> normalize_loop json_env 0 [msg ''assistant'' ''not json'', msg ''system'' ''ok''] []
      = ([msg ''you'' ''not json'', msg ''your computer'' ''ok''],
         [''Error: Invalid JSON: Expecting value''])"
proof -
  have a: "extract_json_from_response json_env (example_dumps thoughts_action)
     = Inr [(''thoughts'', JStr ''x''), (''action'', JStr ''y'')]"
    by (simp add: json_env_def thoughts_action_def)
  have b: "extract_json_from_response json_env ''not json'' = Inl ''Expecting value''"
    by code_simp
  have r: "normalize_loop json_env 0 [msg ''system'' ''ok''] []
             = ([msg ''your computer'' ''ok''], [])"
    by code_simp
  have d: "json_dumps json_env = example_dumps" by (simp add: json_env_def)
  have l: "json_error_lines json_env (msg ''assistant'' ''not json'') ''Expecting value''
             = [''Error: Invalid JSON: Expecting value'']"
    by code_simp
  from thoughts_stripping_at_head[of json_env "example_dumps thoughts_action"
         "[msg ''system'' ''ok'']"]
       thoughts_stripping_at_head[of json_env "''not json''" "[msg ''system'' ''ok'']"
         "''Expecting value''"]
       a b
  show ?thesis by (simp add: r d l)
qed

text \<open>
  Claim C7. Every assistant event is to come out with the role \<open>you\<close>, without its
  thoughts when its content parses and with a logged error when it does not. An
  assistant event that follows a user message does not: the removal of the user
  message moves it into the position the iterator has passed, and it is stepped over
  with its role and its content. In the environment with the JSON parser, the event
  with the thoughts is what the request to the service holds, and for a content that
  does not parse no line is logged.
\<close>

theorem assistant_after_user_skipped:
  "normalize_loop E 0 [msg ''user'' u, msg ''assistant'' c] [] = ([msg ''assistant'' c], [])
   \<and> requests (snd (snd (update_running_summary json_env
                            [msg ''user'' ''u'', msg ''assistant'' (example_dumps thoughts_action)]
                            (new_history, empty_world))))
       = [(''I was created'', [msg ''assistant'' (example_dumps thoughts_action)])]
   \<and> error_log (snd (snd (update_running_summary json_env
                            [msg ''user'' ''u'', msg ''assistant'' ''not json'']
                            (new_history, empty_world)))) = []"
proof -
  have a: "normalize_loop E 0 [msg ''user'' u, msg ''assistant'' c] []
             = ([msg ''assistant'' c], [])"
    by (simp add: normalize_loop.simps normalize_body_def msg_def lower_def lower_char_def)
  have b: "requests (snd (snd (update_running_summary json_env
                            [msg ''user'' ''u'', msg ''assistant'' (example_dumps thoughts_action)]
                            (new_history, empty_world))))
       = [(''I was created'', [msg ''assistant'' (example_dumps thoughts_action)])]"
    by code_simp
  have c: "error_log (snd (snd (update_running_summary json_env
                            [msg ''user'' ''u'', msg ''assistant'' ''not json'']
                            (new_history, empty_world)))) = []"
    by code_simp
  from a b c show ?thesis by blast
qed

section \<open>The requests sent by the packing loop\<close>

lemma new_requests_append: "requests w' = requests w @ rs \<Longrightarrow> new_requests w w' = rs"
  by (simp add: new_requests_def)

lemma replay_append:
  "replay E k s rs = Some (s1, False) \<Longrightarrow>
   replay E k s (rs @ rs') = replay E (k + length rs) s1 rs'"
proof (induction rs arbitrary: k s)
  case Nil
  then show ?case by simp
next
  case (Cons q rs)
  show ?case
  proof (cases "create_chat_completion E k (summary_prompt E s (snd q))")
    case None
    with Cons.prems show ?thesis by (simp split: if_splits)
  next
    case (Some r)
    with Cons.prems have "replay E (Suc k) r rs = Some (s1, False)" and "fst q = s"
      by (simp_all split: if_splits)
    from Cons.IH[OF this(1)] this(2) Some show ?thesis by simp
  qed
qed

text \<open>A request that raised is the last of the list, and the summary is the one it had.\<close>

lemma replay_failure:
  "replay E k s0 (rs @ (s, b) # rs') = Some (sf, f) \<Longrightarrow>
   create_chat_completion E (k + length rs) (summary_prompt E s b) = None \<Longrightarrow>
   rs' = [] \<and> f \<and> sf = s \<and> replay E k s0 rs = Some (s, False)"
proof (induction rs arbitrary: k s0)
  case Nil
  then show ?case by (auto split: if_splits)
next
  case (Cons q rs)
  from Cons.prems(1) have q: "fst q = s0" by (simp split: if_splits)
  show ?case
  proof (cases "create_chat_completion E k (summary_prompt E s0 (snd q))")
    case None
    with Cons.prems(1) q show ?thesis by (simp split: if_splits)
  next
    case (Some r)
    with Cons.prems q have "replay E (Suc k) r (rs @ (s, b) # rs') = Some (sf, f)"
      "create_chat_completion E (Suc k + length rs) (summary_prompt E s b) = None"
      by simp_all
    from Cons.IH[OF this] Some q show ?thesis by simp
  qed
qed

lemma within_budget_append:
  "within_budget E f (rs @ rs') = (within_budget E f rs \<and> within_budget E (f \<and> rs = []) rs')"
  by (induction rs arbitrary: f) auto

lemma within_budget_set:
  "within_budget E f rs \<Longrightarrow> q \<in> set rs \<Longrightarrow> 2 \<le> length (snd q) \<Longrightarrow>
   batch_tokens E (snd q) \<le> budget E (fst q)"
  by (induction rs arbitrary: f) (auto split: if_splits)

lemma within_budget_hd:
  "within_budget E True rs \<Longrightarrow> rs \<noteq> [] \<Longrightarrow> snd (hd rs) \<noteq> [] \<Longrightarrow>
   batch_tokens E (snd (hd rs)) \<le> budget E (fst (hd rs))"
  by (cases rs) (auto split: if_splits)

text \<open>What one flush does to the requests, the summary and the error log.\<close>

lemma summarize_batch_trace:
  assumes "summarize_batch E b hw = (r, hw')"
  shows "requests (snd hw') = requests (snd hw) @ [(summary (fst hw), b)]"
    and "replay E (length (requests (snd hw))) (summary (fst hw)) [(summary (fst hw), b)]
           = Some (summary (fst hw'), isl r)"
    and "r = Inl e \<Longrightarrow> e = CompletionServiceFailure"
    and "error_log (snd hw') = error_log (snd hw)"
  using assms
  by (auto simp: summarize_batch_def Let_def split: option.splits)

lemma batch_loop_trace:
  assumes "batch_loop E evs batch bt st hw = (r, hw')"
  shows "\<exists>rs. requests (snd hw') = requests (snd hw) @ rs
           \<and> replay E (length (requests (snd hw))) (summary (fst hw)) rs
               = Some (summary (fst hw'), isl r)"
  using assms
proof (induction evs arbitrary: batch bt st hw)
  case Nil
  then show ?case by auto
next
  case (Cons e evs)
  let ?et = "count_string_tokens E (str_Message E e)"
  show ?case
  proof (cases "bt + ?et > max_tokens E - prompt_template_length - st")
    case False
    with Cons.prems have
      "batch_loop E evs (batch @ [e]) (bt + ?et) st hw = (r, hw')"
      by (simp add: Let_def)
    from Cons.IH[OF this] show ?thesis .
  next
    case True
    obtain r1 hw1 where s: "summarize_batch E batch hw = (r1, hw1)"
      by (cases "summarize_batch E batch hw")
    note t = summarize_batch_trace[OF s]
    show ?thesis
    proof (cases r1)
      case (Inl e')
      with Cons.prems True s have "r = Inl e'" "hw' = hw1" by (simp_all add: Let_def)
      with t(1,2) Inl show ?thesis by (intro exI[of _ "[(summary (fst hw), batch)]"]) simp
    next
      case (Inr u)
      with Cons.prems True s have
        "batch_loop E evs [e] ?et (count_string_tokens E (summary (fst hw1))) hw1 = (r, hw')"
        by (simp add: Let_def)
      from Cons.IH[OF this] obtain rs where
        rs: "requests (snd hw') = requests (snd hw1) @ rs"
            "replay E (length (requests (snd hw1))) (summary (fst hw1)) rs
               = Some (summary (fst hw'), isl r)"
        by blast
      from t(2) Inr have
        one: "replay E (length (requests (snd hw))) (summary (fst hw))
                [(summary (fst hw), batch)]
              = Some (summary (fst hw1), False)" by simp
      have "replay E (length (requests (snd hw))) (summary (fst hw))
              ([(summary (fst hw), batch)] @ rs) = Some (summary (fst hw'), isl r)"
        using replay_append[OF one, of rs] rs(2) t(1) by simp
      with rs(1) t(1) show ?thesis
        by (intro exI[of _ "[(summary (fst hw), batch)] @ rs"]) simp
    qed
  qed
qed

lemma batch_loop_error:
  "batch_loop E evs batch bt st hw = (Inl e, hw') \<Longrightarrow> e = CompletionServiceFailure"
proof (induction evs arbitrary: batch bt st hw)
  case Nil
  then show ?case by simp
next
  case (Cons x evs)
  let ?et = "count_string_tokens E (str_Message E x)"
  show ?case
  proof (cases "bt + ?et > max_tokens E - prompt_template_length - st")
    case False
    with Cons.prems have "batch_loop E evs (batch @ [x]) (bt + ?et) st hw = (Inl e, hw')"
      by (simp add: Let_def)
    from Cons.IH[OF this] show ?thesis .
  next
    case True
    obtain r1 hw1 where s: "summarize_batch E batch hw = (r1, hw1)"
      by (cases "summarize_batch E batch hw")
    show ?thesis
    proof (cases r1)
      case (Inl e')
      with Cons.prems True s summarize_batch_trace(3)[OF s, of e'] show ?thesis
        by (simp add: Let_def)
    next
      case (Inr u)
      with Cons.prems True s have
        "batch_loop E evs [x] ?et (count_string_tokens E (summary (fst hw1))) hw1
           = (Inl e, hw')"
        by (simp add: Let_def)
      from Cons.IH[OF this] show ?thesis .
    qed
  qed
qed

text \<open>
  The invariant of the packing loop: \<open>batch_tlength\<close> is the token length of \<open>batch\<close>,
  \<open>summary_tlength\<close> that of the current summary, and a batch of two events or more
  (or a first batch that is not empty) is within the budget.
\<close>

lemma batch_loop_budget:
  assumes "batch_loop E evs batch bt st hw = (r, hw')"
    and "bt = batch_tokens E batch"
    and "st = count_string_tokens E (summary (fst hw))"
    and "2 \<le> length batch \<or> (initial \<and> batch \<noteq> [])
           \<Longrightarrow> bt \<le> budget E (summary (fst hw))"
  shows "\<exists>rs. requests (snd hw') = requests (snd hw) @ rs
           \<and> within_budget E initial rs
           \<and> (\<forall>b. r = Inr b \<longrightarrow> 2 \<le> length b \<or> (initial \<and> rs = [] \<and> b \<noteq> [])
                  \<longrightarrow> batch_tokens E b \<le> budget E (summary (fst hw')))"
  using assms
proof (induction evs arbitrary: batch bt st hw initial)
  case Nil
  then show ?case by auto
next
  case (Cons e evs)
  let ?et = "count_string_tokens E (str_Message E e)"
  show ?case
  proof (cases "bt + ?et > max_tokens E - prompt_template_length - st")
    case False
    with Cons.prems(1) have
      l: "batch_loop E evs (batch @ [e]) (bt + ?et) st hw = (r, hw')"
      by (simp add: Let_def)
    have bt': "bt + ?et = batch_tokens E (batch @ [e])"
      using Cons.prems(2) by (simp add: batch_tokens_def)
    have inv: "bt + ?et \<le> budget E (summary (fst hw))"
      using False Cons.prems(3) by (simp add: budget_def)
    from Cons.IH[OF l bt' Cons.prems(3) inv, of initial] show ?thesis .
  next
    case True
    obtain r1 hw1 where s: "summarize_batch E batch hw = (r1, hw1)"
      by (cases "summarize_batch E batch hw")
    note t = summarize_batch_trace[OF s]
    let ?q = "(summary (fst hw), batch)"
    have q: "within_budget E initial [?q]"
      using Cons.prems(2,4) by auto
    show ?thesis
    proof (cases r1)
      case (Inl e')
      with Cons.prems(1) True s have "r = Inl e'" "hw' = hw1" by (simp_all add: Let_def)
      with t(1) q show ?thesis by (intro exI[of _ "[?q]"]) simp
    next
      case (Inr u)
      with Cons.prems(1) True s have
        l: "batch_loop E evs [e] ?et (count_string_tokens E (summary (fst hw1))) hw1
              = (r, hw')"
        by (simp add: Let_def)
      have bt': "?et = batch_tokens E [e]" by (simp add: batch_tokens_def)
      have inv: "2 \<le> length [e] \<or> (False \<and> [e] \<noteq> [])
                   \<Longrightarrow> ?et \<le> budget E (summary (fst hw1))"
        by simp
      from Cons.IH[OF l bt' refl inv] obtain rs where
        rs: "requests (snd hw') = requests (snd hw1) @ rs" "within_budget E False rs"
            "\<forall>b. r = Inr b \<longrightarrow> 2 \<le> length b \<or> (False \<and> rs = [] \<and> b \<noteq> [])
                  \<longrightarrow> batch_tokens E b \<le> budget E (summary (fst hw'))"
        by blast
      from rs t(1) q show ?thesis
        by (intro exI[of _ "?q # rs"]) auto
    qed
  qed
qed

lemma summarize_events_requests:
  assumes "summarize_events E events lg hw = (r, hw')"
  shows "\<exists>rs. requests (snd hw') = requests (snd hw) @ rs
           \<and> within_budget E True rs
           \<and> replay E (length (requests (snd hw))) (summary (fst hw)) rs
               = Some (summary (fst hw'), isl r)
           \<and> (\<forall>e. r = Inl e \<longrightarrow> e = CompletionServiceFailure)"
proof -
  define hw0 where "hw0 = (fst hw, (snd hw)\<lparr>error_log := error_log (snd hw) @ lg\<rparr>)"
  have h0: "requests (snd hw0) = requests (snd hw)" "summary (fst hw0) = summary (fst hw)"
    by (simp_all add: hw0_def)
  obtain r1 hw1 where
    b: "batch_loop E events [] 0 (count_string_tokens E (summary (fst hw0))) hw0 = (r1, hw1)"
    by (cases "batch_loop E events [] 0 (count_string_tokens E (summary (fst hw0))) hw0")
  have z: "0 = batch_tokens E []" by (simp add: batch_tokens_def)
  have inv: "2 \<le> length ([]::Message list) \<or> (True \<and> ([]::Message list) \<noteq> [])
               \<Longrightarrow> 0 \<le> budget E (summary (fst hw0))" by simp
  from batch_loop_budget[OF b z refl inv] obtain rs where
    rs: "requests (snd hw1) = requests (snd hw0) @ rs" "within_budget E True rs"
        "\<forall>b. r1 = Inr b \<longrightarrow> 2 \<le> length b \<or> (True \<and> rs = [] \<and> b \<noteq> [])
               \<longrightarrow> batch_tokens E b \<le> budget E (summary (fst hw1))"
    by blast
  from batch_loop_trace[OF b] rs(1) have
    rp: "replay E (length (requests (snd hw0))) (summary (fst hw0)) rs
           = Some (summary (fst hw1), isl r1)"
    by auto
  show ?thesis
  proof (cases r1)
    case (Inl e)
    have e: "e = CompletionServiceFailure" using batch_loop_error[OF b[unfolded Inl]] .
    from Inl assms b have "r = Inl e" "hw' = hw1"
      by (auto simp: summarize_events_def Let_def hw0_def)
    with rs rp h0 Inl e show ?thesis by (intro exI[of _ rs]) simp
  next
    case (Inr batch)
    show ?thesis
    proof (cases "batch = []")
      case True
      with Inr assms b have "r = Inr (summary_message (fst hw1))" "hw' = hw1"
        by (auto simp: summarize_events_def Let_def hw0_def)
      with rs rp h0 Inr show ?thesis by (intro exI[of _ rs]) simp
    next
      case nonempty: False
      obtain r2 hw2 where s: "summarize_batch E batch hw1 = (r2, hw2)"
        by (cases "summarize_batch E batch hw1")
      note t = summarize_batch_trace[OF s]
      let ?q = "(summary (fst hw1), batch)"
      from Inr assms b s nonempty have r: "hw' = hw2" "isl r = isl r2"
          "\<forall>e. r = Inl e \<longrightarrow> r2 = Inl e"
        by (cases r2; auto simp: summarize_events_def Let_def hw0_def)+
      have q: "within_budget E (rs = []) [?q]"
        using rs(3) Inr nonempty by auto
      from rp Inr have rp1: "replay E (length (requests (snd hw0))) (summary (fst hw0)) rs
           = Some (summary (fst hw1), False)" by simp
      have "replay E (length (requests (snd hw0))) (summary (fst hw0)) (rs @ [?q])
              = Some (summary (fst hw2), isl r2)"
        using replay_append[OF rp1, of "[?q]"] t(2) rs(1) by simp
      moreover have "within_budget E True (rs @ [?q])"
        using rs(2) q by (simp add: within_budget_append)
      moreover have "requests (snd hw2) = requests (snd hw) @ rs @ [?q]"
        using t(1) rs(1) h0 by simp
      moreover have "\<forall>e. r = Inl e \<longrightarrow> e = CompletionServiceFailure"
        using r(3) t(3) by blast
      ultimately show ?thesis using r h0
        by (intro exI[of _ "rs @ [?q]"]) simp
    qed
  qed
qed

lemma update_running_summary_requests:
  assumes "update_running_summary E evs hw = (r, hw')"
  shows "\<exists>rs. requests (snd hw') = requests (snd hw) @ rs
           \<and> within_budget E True rs
           \<and> replay E (length (requests (snd hw))) (summary (fst hw)) rs
               = Some (summary (fst hw'), isl r)
           \<and> (\<forall>e. r = Inl e \<longrightarrow> e = CompletionServiceFailure)"
proof (cases "evs = []")
  case True
  with assms show ?thesis by (auto simp: update_running_summary_def)
next
  case False
  with assms summarize_events_requests show ?thesis
    by (simp add: update_running_summary_def)
qed

text \<open>
  Claim C3, as stated, fails. With a context of 140 tokens, an overhead of 100 and a
  token per character, the events \<open>m1\<close> and \<open>an event of some length\<close> do not fit one
  batch: the first is flushed alone, the summary becomes \<open>summary\<close>, and the second
  event starts the next batch unchecked. That batch is flushed with 38 tokens against
  a budget of 33.
\<close>

theorem batch_over_budget:
  "new_requests empty_world
     (snd (snd (update_running_summary tight_env
                  [msg ''system'' ''m1'', msg ''system'' ''an event of some length'']
                  (new_history, empty_world))))
     = [(''I was created'', [msg ''your computer'' ''m1'']),
        (''summary'', [msg ''your computer'' ''an event of some length''])]
   \<and> batch_tokens tight_env [msg ''your computer'' ''an event of some length''] = 38
   \<and> budget tight_env ''summary'' = 33
   \<and> \<not> batch_tokens tight_env [msg ''your computer'' ''an event of some length'']
         \<le> max_tokens tight_env - prompt_template_length
             - count_string_tokens tight_env ''summary''"
  by code_simp

text \<open>
  Claim C3, amended. The requests a call of \<open>update_running_summary\<close> sends extend the
  ones sent before. Every batch of two events or more among them, and the first batch
  when it is not empty, is within the budget of the summary the request is sent with.
  That summary is the current one: the answer to the request before, or the summary
  at the call for the first request (\<open>replay\<close>), so the budget of a batch is the one
  computed when the batch started.
\<close>

theorem flushed_batches_within_budget:
  assumes "update_running_summary E new_events (h, w) = (r, (h', w'))"
  shows "requests w' = requests w @ new_requests w w'
     \<and> (\<forall>q \<in> set (new_requests w w').
          2 \<le> length (snd q) \<longrightarrow> batch_tokens E (snd q) \<le> budget E (fst q))
     \<and> (new_requests w w' \<noteq> [] \<and> snd (hd (new_requests w w')) \<noteq> []
          \<longrightarrow> batch_tokens E (snd (hd (new_requests w w')))
                \<le> budget E (fst (hd (new_requests w w'))))
     \<and> replay E (length (requests w)) (summary h) (new_requests w w')
         = Some (summary h', isl r)"
proof -
  from update_running_summary_requests[OF assms] obtain rs where
    rs: "requests w' = requests w @ rs" "within_budget E True rs"
        "replay E (length (requests w)) (summary h) rs = Some (summary h', isl r)"
    by auto
  from rs(1) have n: "new_requests w w' = rs" by (rule new_requests_append)
  from rs within_budget_set[OF rs(2)] within_budget_hd[OF rs(2)] show ?thesis
    unfolding n by blast
qed

theorem flushed_batches_within_budget_witness:
  "new_requests empty_world
     (snd (snd (update_running_summary roomy_env
                  [msg ''system'' ''m1'', msg ''system'' ''m2'', msg ''system'' ''m3'']
                  (new_history, empty_world))))
     = [(''I was created'', [msg ''your computer'' ''m1'', msg ''your computer'' ''m2'']),
        (''summary'', [msg ''your computer'' ''m3''])]
   \<and> batch_tokens roomy_env [msg ''your computer'' ''m1'', msg ''your computer'' ''m2'']
       \<le> budget roomy_env ''I was created''
   \<and> replay roomy_env 0 ''I was created''
        [(''I was created'', [msg ''your computer'' ''m1'', msg ''your computer'' ''m2'']),
         (''summary'', [msg ''your computer'' ''m3''])]
       = Some (''summary'', False)"
proof -
  let ?run = "update_running_summary roomy_env
                  [msg ''system'' ''m1'', msg ''system'' ''m2'', msg ''system'' ''m3'']
                  (new_history, empty_world)"
  have n: "new_requests empty_world (snd (snd ?run))
     = [(''I was created'', [msg ''your computer'' ''m1'', msg ''your computer'' ''m2'']),
        (''summary'', [msg ''your computer'' ''m3''])]"
    by code_simp
  have s: "summary new_history = ''I was created''" "requests empty_world = []"
      "summary (fst (snd ?run)) = ''summary''" "isl (fst ?run) = False"
    by code_simp+
  have "?run = (fst ?run, (fst (snd ?run), snd (snd ?run)))" by simp
  from flushed_batches_within_budget[OF this] show ?thesis
    unfolding n s by simp
qed

section \<open>A failure of the completion service\<close>

text \<open>
  The requests of one call of \<open>trim_messages\<close>: they were sent in turn, each with the
  summary current at the time; the call returns the failure of the service exactly
  when the last request raised, and then the cursor is the one before the call.
\<close>

lemma trim_requests:
  assumes "trim_messages E chain hw = (r, hw')"
  shows "\<exists>rs. requests (snd hw') = requests (snd hw) @ rs
           \<and> replay E (length (requests (snd hw))) (summary (fst hw)) rs
               = Some (summary (fst hw'), r = Inl CompletionServiceFailure)
           \<and> (r = Inl CompletionServiceFailure
                \<longrightarrow> last_trimmed_index (fst hw') = last_trimmed_index (fst hw))"
proof (cases "new_messages_not_in_chain (fst hw) chain = []")
  case True
  with assms show ?thesis by (auto simp: trim_messages_def)
next
  case False
  define stale where "stale = new_messages_not_in_chain (fst hw) chain"
  obtain r1 hw1 where u: "update_running_summary E stale hw = (r1, hw1)"
    by (cases "update_running_summary E stale hw")
  from update_running_summary_requests[OF u] obtain rs where
    rs: "requests (snd hw1) = requests (snd hw) @ rs"
        "replay E (length (requests (snd hw))) (summary (fst hw)) rs
               = Some (summary (fst hw1), isl r1)"
        "\<forall>e. r1 = Inl e \<longrightarrow> e = CompletionServiceFailure"
    by blast
  note f = update_running_summary_frame[OF u]
  show ?thesis
  proof (cases r1)
    case (Inl e)
    with rs(3) have e: "e = CompletionServiceFailure" by simp
    from Inl assms False u have "r = Inl e" "hw' = hw1"
      by (auto simp: trim_messages_def stale_def)
    with rs e Inl f show ?thesis by (intro exI[of _ rs]) simp
  next
    case (Inr m)
    show ?thesis
    proof (cases "index (cycle_eq E) (message_cycles (fst hw1)) (last stale)")
      case None
      with Inr assms False u have "r = Inl ValueError" "hw' = hw1"
        by (auto simp: trim_messages_def stale_def)
      with rs Inr show ?thesis by (intro exI[of _ rs]) simp
    next
      case (Some k)
      with Inr assms False u have "r = Inr (m, stale)"
         "hw' = ((fst hw1)\<lparr>last_trimmed_index := int k\<rparr>, snd hw1)"
        by (auto simp: trim_messages_def stale_def Let_def)
      with rs Inr show ?thesis by (intro exI[of _ rs]) simp
    qed
  qed
qed

text \<open>
  Claim C5. If a request sent during \<open>trim_messages\<close> raises (the request \<open>(s, b)\<close>,
  after the requests \<open>rs\<close> of the same call), then \<open>trim_messages\<close> raises the failure
  of the service; no request follows; the summary is \<open>s\<close>, the one that request was
  sent with, which is what the flushes \<open>rs\<close> before it produced one after another from
  the summary at the call; and the cursor is the one before the call.
\<close>

theorem partial_commit:
  assumes "trim_messages E chain (h, w) = (r, (h', w'))"
    and "requests w' = requests w @ rs @ (s, b) # rs'"
    and "create_chat_completion E (length (requests w) + length rs) (summary_prompt E s b)
           = None"
  shows "r = Inl CompletionServiceFailure \<and> rs' = [] \<and> summary h' = s
         \<and> replay E (length (requests w)) (summary h) rs = Some (s, False)
         \<and> last_trimmed_index h' = last_trimmed_index h"
proof -
  from trim_requests[OF assms(1)] obtain rs0 where
    rs0: "requests w' = requests w @ rs0"
         "replay E (length (requests w)) (summary h) rs0
               = Some (summary h', r = Inl CompletionServiceFailure)"
         "r = Inl CompletionServiceFailure \<longrightarrow> last_trimmed_index h' = last_trimmed_index h"
    by auto
  from rs0(1) assms(2) have "rs0 = rs @ (s, b) # rs'" by simp
  with rs0(2) have "replay E (length (requests w)) (summary h) (rs @ (s, b) # rs')
               = Some (summary h', r = Inl CompletionServiceFailure)" by simp
  from replay_failure[OF this assms(3)] rs0(3) show ?thesis by simp
qed

theorem partial_commit_witness:
  "requests (snd (snd (trim_messages failing_env [] (chain_diff_history, empty_world))))
     = requests empty_world @ [(''I was created'', [msg ''your computer'' ''m1''])]
       @ (''first summary'', [msg ''your computer'' ''m2'']) # []
   \<and> create_chat_completion failing_env (length (requests empty_world) + 1)
        (summary_prompt failing_env ''first summary'' [msg ''your computer'' ''m2'']) = None
   \<and> new_messages_not_in_chain chain_diff_history []
       = [msg ''system'' ''m1'', msg ''system'' ''m2'', msg ''system'' ''m3'']
   \<and> fst (trim_messages failing_env [] (chain_diff_history, empty_world))
       = Inl CompletionServiceFailure
   \<and> summary (fst (snd (trim_messages failing_env [] (chain_diff_history, empty_world))))
       = ''first summary''
   \<and> last_trimmed_index
       (fst (snd (trim_messages failing_env [] (chain_diff_history, empty_world)))) = 0"
proof -
  let ?run = "trim_messages failing_env [] (chain_diff_history, empty_world)"
  have a: "?run = (fst ?run, (fst (snd ?run), snd (snd ?run)))" by simp
  have b: "requests (snd (snd ?run))
     = requests empty_world @ [(''I was created'', [msg ''your computer'' ''m1''])]
       @ (''first summary'', [msg ''your computer'' ''m2'']) # []"
    by code_simp
  have c: "create_chat_completion failing_env
             (length (requests empty_world)
              + length [(''I was created'', [msg ''your computer'' ''m1''])])
             (summary_prompt failing_env ''first summary'' [msg ''your computer'' ''m2''])
           = None"
    by (simp add: failing_env_def empty_world_def)
  have d: "new_messages_not_in_chain chain_diff_history []
       = [msg ''system'' ''m1'', msg ''system'' ''m2'', msg ''system'' ''m3'']"
    by code_simp
  have e: "last_trimmed_index chain_diff_history = 0" by (simp add: chain_diff_history_def)
  from partial_commit[OF a b c] b c d e show ?thesis by simp
qed

section \<open>The caller's events\<close>

text \<open>The copy extends the heap, and its references are new.\<close>

lemma deepcopy_heap:
  "\<exists>ext. fst (deepcopy hp memo rs) = hp @ ext"
proof (induction rs arbitrary: hp memo)
  case Nil
  show ?case by simp
next
  case (Cons r rs)
  show ?case
  proof (cases "map_of memo r")
    case None
    from Cons.IH[of "hp @ [hp ! r]" "(r, length hp) # memo"] None show ?thesis by auto
  next
    case (Some r')
    with Cons.IH[of hp memo] show ?thesis by simp
  qed
qed

lemma deepcopy_refs:
  "\<forall>p \<in> set memo. n \<le> snd p \<Longrightarrow> n \<le> length hp \<Longrightarrow>
   \<forall>r' \<in> set (snd (deepcopy hp memo rs)). n \<le> r'"
proof (induction rs arbitrary: hp memo)
  case Nil
  show ?case by simp
next
  case (Cons r rs)
  show ?case
  proof (cases "map_of memo r")
    case None
    have "\<forall>p \<in> set ((r, length hp) # memo). n \<le> snd p" using Cons.prems by simp
    from Cons.IH[OF this, of "hp @ [hp ! r]"] Cons.prems(2) None show ?thesis by simp
  next
    case (Some r')
    then have "(r, r') \<in> set memo" by (rule map_of_SomeD)
    with Cons.prems(1) have "n \<le> r'" by fastforce
    with Cons.IH[OF Cons.prems] Some show ?thesis by simp
  qed
qed

lemma remove_event_subset: "set (remove_event hp event refs) \<subseteq> set refs"
  using set_remove1_subset[of _ refs]
  by (auto simp: remove_event_def split: option.splits)

lemma normalize_body_refs_frame:
  assumes "i < length refs" "\<forall>r \<in> set refs. n \<le> r"
  shows "take n (fst (normalize_body_refs E i hp refs)) = take n hp"
    and "set (fst (snd (normalize_body_refs E i hp refs))) \<subseteq> set refs"
proof -
  from assms have "n \<le> refs ! i" by simp
  then show "take n (fst (normalize_body_refs E i hp refs)) = take n hp"
    by (auto simp: normalize_body_refs_def Let_def split: sum.splits)
  show "set (fst (snd (normalize_body_refs E i hp refs))) \<subseteq> set refs"
    using remove_event_subset[of hp "refs ! i" refs]
    by (auto simp: normalize_body_refs_def Let_def split: sum.splits)
qed

lemma normalize_loop_refs_frame:
  "\<forall>r \<in> set refs. n \<le> r \<Longrightarrow>
   take n (fst (normalize_loop_refs E i hp refs lg)) = take n hp"
proof (induction E i hp refs lg rule: normalize_loop_refs.induct)
  case (1 E i hp refs lg)
  show ?case
  proof (cases "i < length refs")
    case False
    then show ?thesis by (subst normalize_loop_refs.simps) simp
  next
    case True
    note b = normalize_body_refs_frame[OF True "1.prems", of E hp]
    from b(2) "1.prems" have
      "\<forall>r \<in> set (fst (snd (normalize_body_refs E i hp refs))). n \<le> r" by blast
    from "1.IH"[OF True this] b(1) True show ?thesis
      by (subst normalize_loop_refs.simps) simp
  qed
qed

text \<open>
  Claim C8. \<open>update_running_summary\<close> copies the list it is given and normalises the
  copies: every object that existed before the call is the same after it. In
  particular each event of the caller's list, which is the list \<open>trim_messages\<close>
  returns, has the role and the content it had.
\<close>

theorem caller_events_unchanged:
  "take (length hp) (snd (update_running_summary_refs E new_events hp hw)) = hp
   \<and> (\<forall>r \<in> set new_events. r < length hp
         \<longrightarrow> snd (update_running_summary_refs E new_events hp hw) ! r = hp ! r)"
proof -
  have p: "take (length hp) (snd (update_running_summary_refs E new_events hp hw)) = hp"
  proof (cases "new_events = []")
    case True
    then show ?thesis by (simp add: update_running_summary_refs_def)
  next
    case False
    obtain ext where e: "fst (deepcopy hp [] new_events) = hp @ ext"
      using deepcopy_heap by blast
    have "\<forall>r' \<in> set (snd (deepcopy hp [] new_events)). length hp \<le> r'"
      by (rule deepcopy_refs) simp_all
    from normalize_loop_refs_frame[OF this, of E 0 "fst (deepcopy hp [] new_events)" "[]"] e False
    show ?thesis by (simp add: update_running_summary_refs_def Let_def)
  qed
  have "snd (update_running_summary_refs E new_events hp hw) ! r = hp ! r" if "r < length hp" for r
  proof -
    from that have "take (length hp) (snd (update_running_summary_refs E new_events hp hw)) ! r
                      = snd (update_running_summary_refs E new_events hp hw) ! r"
      by simp
    with p show ?thesis by simp
  qed
  with p show ?thesis by blast
qed

theorem caller_events_unchanged_witness:
  "1 < length example_heap \<and> 2 < length example_heap
   \<and> snd (update_running_summary_refs example_env [1, 2, 1] example_heap
            (new_history, empty_world))
       = example_heap @ [msg ''you'' ''b'', msg ''your computer'' ''c'']
   \<and> snd (update_running_summary_refs example_env [1, 2, 1] example_heap
            (new_history, empty_world)) ! 1 = msg ''assistant'' ''b''
   \<and> snd (update_running_summary_refs example_env [1, 2, 1] example_heap
            (new_history, empty_world)) ! 2 = msg ''system'' ''c''"
proof -
  have v: "\<forall>r \<in> set [1, 2, 1]. r < length example_heap"
    by (simp add: example_heap_def)
  have h: "snd (update_running_summary_refs example_env [1, 2, 1] example_heap
                  (new_history, empty_world))
             = example_heap @ [msg ''you'' ''b'', msg ''your computer'' ''c'']"
    by code_simp
  have e: "example_heap ! 1 = msg ''assistant'' ''b''" "example_heap ! 2 = msg ''system'' ''c''"
    by (simp_all add: example_heap_def)
  from caller_events_unchanged[of example_heap example_env "[1, 2, 1]"
         "(new_history, empty_world)"] v h e
  show ?thesis by simp
qed

text \<open>
  The two models agree. On a list of distinct objects the copy is a list of distinct
  new objects with the same values, and the loop over the objects does to their values
  what the loop by value does: \<open>update_running_summary\<close> is \<open>update_running_summary_refs\<close>
  read by value.
\<close>

lemma normalize_loop_refs_done:
  "\<not> i < length refs \<Longrightarrow> normalize_loop_refs E i hp refs lg = (hp, refs, lg)"
  by (subst normalize_loop_refs.simps) simp

lemma normalize_loop_refs_step:
  "i < length refs \<Longrightarrow>
   normalize_loop_refs E i hp refs lg
     = normalize_loop_refs E (Suc i)
          (fst (normalize_body_refs E i hp refs))
          (fst (snd (normalize_body_refs E i hp refs)))
          (lg @ snd (snd (normalize_body_refs E i hp refs)))"
  by (subst normalize_loop_refs.simps) simp

lemma deepcopy_distinct:
  "distinct rs \<Longrightarrow> set rs \<inter> fst ` set memo = {} \<Longrightarrow> \<forall>r \<in> set rs. r < length hp \<Longrightarrow>
   deepcopy hp memo rs = (hp @ map (\<lambda>r. hp ! r) rs, [length hp ..< length hp + length rs])"
proof (induction rs arbitrary: hp memo)
  case Nil
  show ?case by simp
next
  case (Cons r rs)
  from Cons.prems(2) have "r \<notin> fst ` set memo" by auto
  then have none: "map_of memo r = None" by (simp add: map_of_eq_None_iff)
  have d: "distinct rs" and nr: "r \<notin> set rs" using Cons.prems(1) by simp_all
  have m: "set rs \<inter> fst ` set ((r, length hp) # memo) = {}"
    using Cons.prems(2) nr by auto
  have v: "\<forall>r' \<in> set rs. r' < length (hp @ [hp ! r])"
    using Cons.prems(3) by (auto simp: less_Suc_eq)
  have eq: "map (\<lambda>r'. (hp @ [hp ! r]) ! r') rs = map (\<lambda>r'. hp ! r') rs"
    using Cons.prems(3) by (simp add: nth_append)
  have u: "[length hp ..< length hp + length (r # rs)]
             = length hp # [length (hp @ [hp ! r]) ..< length (hp @ [hp ! r]) + length rs]"
    by (simp add: upt_conv_Cons del: upt_Suc)
  have "deepcopy hp memo (r # rs)
          = (fst (deepcopy (hp @ [hp ! r]) ((r, length hp) # memo) rs),
             length hp # snd (deepcopy (hp @ [hp ! r]) ((r, length hp) # memo) rs))"
    using none by simp
  also have "\<dots> = ((hp @ [hp ! r]) @ map (\<lambda>r'. (hp @ [hp ! r]) ! r') rs,
                    length hp # [length (hp @ [hp ! r]) ..< length (hp @ [hp ! r]) + length rs])"
    unfolding Cons.IH[OF d m v] by simp
  also have "\<dots> = (hp @ map (\<lambda>r. hp ! r) (r # rs), [length hp ..< length hp + length (r # rs)])"
    unfolding eq u by simp
  finally show ?case .
qed

lemma map_update_distinct:
  assumes "distinct refs" "i < length refs" "\<forall>r \<in> set refs. r < length hp"
  shows "map (\<lambda>r. hp[refs ! i := v] ! r) refs = (map (\<lambda>r. hp ! r) refs)[i := v]"
proof (rule nth_equalityI)
  show "length (map (\<lambda>r. hp[refs ! i := v] ! r) refs) = length ((map (\<lambda>r. hp ! r) refs)[i := v])"
    by simp
next
  fix j assume "j < length (map (\<lambda>r. hp[refs ! i := v] ! r) refs)"
  then have j: "j < length refs" by simp
  show "map (\<lambda>r. hp[refs ! i := v] ! r) refs ! j = (map (\<lambda>r. hp ! r) refs)[i := v] ! j"
  proof (cases "j = i")
    case True
    with assms show ?thesis by simp
  next
    case False
    with assms j have "refs ! j \<noteq> refs ! i" by (simp add: nth_eq_iff_index_eq)
    with False j show ?thesis by simp
  qed
qed

lemma map_remove_event:
  "map (\<lambda>r. hp ! r) (remove_event hp event refs) = remove1 (hp ! event) (map (\<lambda>r. hp ! r) refs)"
proof (induction refs)
  case Nil
  show ?case by (simp add: remove_event_def)
next
  case (Cons x xs)
  show ?case
  proof (cases "hp ! x = hp ! event")
    case True
    then show ?thesis by (auto simp: remove_event_def)
  next
    case False
    then have ne: "x \<noteq> event" by auto
    show ?thesis
    proof (cases "find (\<lambda>r. r = event \<or> hp ! r = hp ! event) xs")
      case None
      with Cons.IH False ne show ?thesis by (simp add: remove_event_def)
    next
      case (Some r)
      then have "r = event \<or> hp ! r = hp ! event" by (auto simp: find_Some_iff)
      with False ne have "x \<noteq> r" by auto
      with Cons.IH False ne Some show ?thesis by (simp add: remove_event_def)
    qed
  qed
qed

lemma remove_event_distinct: "distinct refs \<Longrightarrow> distinct (remove_event hp event refs)"
  by (simp add: remove_event_def split: option.splits)

lemma normalize_body_refs_by_value:
  assumes "i < length refs" "distinct refs" "\<forall>r \<in> set refs. r < length hp"
  shows "normalize_body E i (map (\<lambda>r. hp ! r) refs)
           = (map (\<lambda>r. fst (normalize_body_refs E i hp refs) ! r)
                (fst (snd (normalize_body_refs E i hp refs))),
              snd (snd (normalize_body_refs E i hp refs)))"
    and "distinct (fst (snd (normalize_body_refs E i hp refs)))"
    and "\<forall>r \<in> set (fst (snd (normalize_body_refs E i hp refs))).
           r < length (fst (normalize_body_refs E i hp refs))"
proof -
  note u = map_update_distinct[OF assms(2,1,3)]
  show "normalize_body E i (map (\<lambda>r. hp ! r) refs)
           = (map (\<lambda>r. fst (normalize_body_refs E i hp refs) ! r)
                (fst (snd (normalize_body_refs E i hp refs))),
              snd (snd (normalize_body_refs E i hp refs)))"
    using assms(1) u map_remove_event[of hp "refs ! i" refs]
    by (auto simp: normalize_body_def normalize_body_refs_def Let_def split: sum.splits)
  show "distinct (fst (snd (normalize_body_refs E i hp refs)))"
    using assms(2) remove_event_distinct[OF assms(2), of hp "refs ! i"]
    by (auto simp: normalize_body_refs_def Let_def split: sum.splits)
  show "\<forall>r \<in> set (fst (snd (normalize_body_refs E i hp refs))).
           r < length (fst (normalize_body_refs E i hp refs))"
    using assms(3) remove_event_subset[of hp "refs ! i" refs]
    by (auto simp: normalize_body_refs_def Let_def split: sum.splits)
qed

lemma normalize_loop_refs_by_value:
  "distinct refs \<Longrightarrow> \<forall>r \<in> set refs. r < length hp \<Longrightarrow>
   normalize_loop E i (map (\<lambda>r. hp ! r) refs) lg
     = (map (\<lambda>r. fst (normalize_loop_refs E i hp refs lg) ! r)
          (fst (snd (normalize_loop_refs E i hp refs lg))),
        snd (snd (normalize_loop_refs E i hp refs lg)))"
proof (induction E i hp refs lg rule: normalize_loop_refs.induct)
  case (1 E i hp refs lg)
  show ?case
  proof (cases "i < length refs")
    case False
    then show ?thesis by (simp add: normalize_loop_refs_done normalize_loop_done)
  next
    case True
    note b = normalize_body_refs_by_value[OF True "1.prems", of E]
    have T: "i < length (map (\<lambda>r. hp ! r) refs)" using True by simp
    show ?thesis
      unfolding normalize_loop_refs_step[OF True] normalize_loop_step[OF T] b(1)
      using "1.IH"[OF True b(2) b(3)] by simp
  qed
qed

lemma update_running_summary_refs_by_value:
  assumes "distinct new_events" "\<forall>r \<in> set new_events. r < length hp"
  shows "fst (update_running_summary_refs E new_events hp hw)
           = update_running_summary E (map (\<lambda>r. hp ! r) new_events) hw"
proof (cases "new_events = []")
  case True
  then show ?thesis by (simp add: update_running_summary_refs_def update_running_summary_def)
next
  case False
  let ?hp1 = "hp @ map (\<lambda>r. hp ! r) new_events"
  let ?copy = "[length hp ..< length hp + length new_events]"
  have c: "deepcopy hp [] new_events = (?hp1, ?copy)"
    using assms by (intro deepcopy_distinct) simp_all
  have v: "map (\<lambda>r. ?hp1 ! r) ?copy = map (\<lambda>r. hp ! r) new_events"
    by (rule nth_equalityI) (simp_all add: nth_append)
  have "distinct ?copy" "\<forall>r \<in> set ?copy. r < length ?hp1" by simp_all
  from normalize_loop_refs_by_value[OF this, of E 0 "[]"] v False c show ?thesis
    by (simp add: update_running_summary_refs_def update_running_summary_def Let_def)
qed

end
